theory Spec2Isabelle
  imports Main "HOL-Library.Word" "HOL-Library.Multiset"
begin

unbundle bit_operations_syntax

section \<open>The routine \<open>maxAndPair\<close> of \<open>02_bit_manipulation/04_max_AND.cpp\<close>\<close>

text \<open>
  The C++ type \<open>int\<close> is a 32-bit two's complement integer: the elements of the vector,
  the accumulator \<open>result\<close>, the tentative mask \<open>tempResult\<close> and the counter \<open>count\<close>
  are all \<open>32 word\<close>. Where the source compares or returns an \<open>int\<close>, the word is read
  with \<open>sint\<close> (\<open>\<le>s\<close> is the signed comparison). \<open>1 << 31\<close> is the word with only the
  sign bit set, and \<open>count++\<close> wraps around, as it does on the usual targets: a vector
  of \<open>2 ^ 31\<close> or more elements can take the counter past the largest \<open>int\<close>.
\<close>

type_synonym int32 = "32 word"

text \<open>
  The inner loop
  \<^verbatim>\<open>count = 0; for (int num : arr) { if ((num & tempResult) == tempResult) { count++; } }\<close>
  as a left-to-right pass over the vector that carries \<open>count\<close>.
\<close>

definition countSupersets :: "int32 \<Rightarrow> int32 list \<Rightarrow> int32" where
  "countSupersets tempResult arr =
     fold (\<lambda>num count. if (num AND tempResult) = tempResult then count + 1 else count) arr 0"

text \<open>
  The body of the outer loop for one value \<open>b\<close> of the loop counter \<open>bit\<close> (the name
  \<open>bit\<close> is a constant of HOL): it forms
  \<open>tempResult = result | (1 << bit)\<close>, counts, and commits when \<open>count >= 2\<close>.
  It returns the new value of \<open>result\<close>.
\<close>

definition bitStep :: "int32 list \<Rightarrow> nat \<Rightarrow> int32 \<Rightarrow> int32" where
  "bitStep arr b result =
     (let tempResult = result OR push_bit b 1;
          count = countSupersets tempResult arr
      in if 2 \<le>s count then tempResult else result)"

text \<open>
  The outer loop \<^verbatim>\<open>for (int bit = 31; bit >= 0; --bit)\<close>, started at any value of the
  loop counter and of the accumulator; it ends when \<open>bit\<close> becomes negative.
\<close>

function bitLoop :: "int32 list \<Rightarrow> int \<Rightarrow> int32 \<Rightarrow> int32" where
  "bitLoop arr b result =
     (if 0 \<le> b then bitLoop arr (b - 1) (bitStep arr (nat b) result) else result)"
  by pat_completeness auto
termination
  by (relation "measure (\<lambda>(arr, b, result). nat (b + 1))") auto

declare bitLoop.simps [simp del]

definition maxAndPair :: "int32 list \<Rightarrow> int32" where
  "maxAndPair arr = bitLoop arr 31 0"

text \<open>
  The value of the accumulator \<open>result\<close> after the first \<open>k\<close> iterations of the outer
  loop; iteration number \<open>k + 1\<close> works on bit \<open>31 - k\<close>.
\<close>

fun resultAfter :: "int32 list \<Rightarrow> nat \<Rightarrow> int32" where
  "resultAfter arr 0 = 0"
| "resultAfter arr (Suc k) = bitStep arr (31 - k) (resultAfter arr k)"

section \<open>The call as a transformer of the caller's vector\<close>

text \<open>
  \<open>maxAndPair\<close> takes its vector by non-const reference, so the callee could write to
  it. The frame below holds the referenced vector and the locals of the routine; every
  statement is a function from frames to frames. The range-based \<open>for\<close> visits the
  positions of the vector from \<open>begin\<close> to \<open>end\<close>, copying each element into \<open>num\<close>.
  The locals \<open>count\<close> and \<open>tempResult\<close> are written before they are read; the frame
  starts them at 0. The local \<open>n\<close> is never read.
\<close>

record frame =
  arr_var :: "int32 list"
  result_var :: int32
  count_var :: int32
  tempResult_var :: int32

definition countIf :: "int32 \<Rightarrow> frame \<Rightarrow> frame" where
  "countIf num s =
     (if (num AND tempResult_var s) = tempResult_var s
      then s\<lparr>count_var := count_var s + 1\<rparr> else s)"

function forEach :: "nat \<Rightarrow> frame \<Rightarrow> frame" where
  "forEach i s =
     (if i < length (arr_var s) then forEach (Suc i) (countIf (arr_var s ! i) s) else s)"
  by pat_completeness auto
termination
  by (relation "measure (\<lambda>(i, s). length (arr_var s) - i)") (auto simp: countIf_def)

declare forEach.simps [simp del]

definition outerBody :: "nat \<Rightarrow> frame \<Rightarrow> frame" where
  "outerBody b s =
     (let s1 = s\<lparr>tempResult_var := result_var s OR push_bit b 1\<rparr>;
          s2 = s1\<lparr>count_var := 0\<rparr>;
          s3 = forEach 0 s2
      in if 2 \<le>s count_var s3 then s3\<lparr>result_var := tempResult_var s3\<rparr> else s3)"

function outerLoop :: "int \<Rightarrow> frame \<Rightarrow> frame" where
  "outerLoop b s = (if 0 \<le> b then outerLoop (b - 1) (outerBody (nat b) s) else s)"
  by pat_completeness auto
termination
  by (relation "measure (\<lambda>(b, s). nat (b + 1))") auto

declare outerLoop.simps [simp del]

text \<open>The call: the returned \<open>int\<close> and the vector as the caller finds it afterwards.\<close>

definition maxAndPair_call :: "int32 list \<Rightarrow> int32 \<times> int32 list" where
  "maxAndPair_call v =
     (let s = outerLoop 31 \<lparr>arr_var = v, result_var = 0, count_var = 0, tempResult_var = 0\<rparr>
      in (result_var s, arr_var s))"

section \<open>The exhaustive pairwise scan\<close>



section \<open>The counter of the inner loop\<close>

text \<open>
  \<open>count\<close> ends as the number of elements that contain every bit of \<open>tempResult\<close>,
  modulo \<open>2 ^ 32\<close>. A vector of fewer than \<open>2 ^ 31\<close> elements cannot overflow it.
\<close>

lemma fold_count:
  "fold (\<lambda>num count. if P num then count + 1 else count) arr (c :: int32)
     = c + of_nat (length (filter P arr))"
  by (induction arr arbitrary: c) simp_all

lemma countSupersets_of_nat:
  "countSupersets t arr = of_nat (length (filter (\<lambda>num. num AND t = t) arr))"
  unfolding countSupersets_def by (simp add: fold_count)

lemma sint_of_nat_small:
  assumes "n < 2 ^ 31"
  shows "sint (of_nat n :: int32) = int n"
proof -
  have "sint (of_nat n :: int32) = signed_take_bit 31 (int n)"
    by (simp add: signed_of_nat)
  also have "\<dots> = int n"
    using assms by (intro signed_take_bit_int_eq_self) simp_all
  finally show ?thesis .
qed

lemma two_sle_of_nat:
  "n < 2 ^ 31 \<Longrightarrow> (2 \<le>s (of_nat n :: int32)) \<longleftrightarrow> 2 \<le> n"
  by (simp add: word_sle_eq sint_of_nat_small)

lemma two_sle_of_nat_imp:
  assumes "2 \<le>s (of_nat n :: int32)"
  shows "2 \<le> n"
proof (rule ccontr)
  assume "\<not> 2 \<le> n"
  then have "n = 0 \<or> n = 1" by arith
  with assms show False by (auto simp: word_sle_eq)
qed

lemma filter_two_iff:
  "2 \<le> length (filter P xs) \<longleftrightarrow>
     (\<exists>i j. i < length xs \<and> j < length xs \<and> i \<noteq> j \<and> P (xs ! i) \<and> P (xs ! j))"
  (is "?L \<longleftrightarrow> ?R")
proof -
  define S where "S = {i. i < length xs \<and> P (xs ! i)}"
  have fin: "finite S" by (simp add: S_def)
  have len: "length (filter P xs) = card S"
    by (simp add: S_def length_filter_conv_card)
  have mem: "\<And>i. i \<in> S \<longleftrightarrow> i < length xs \<and> P (xs ! i)" by (simp add: S_def)
  show ?thesis
  proof
    assume ?L
    then have c: "2 \<le> card S" by (simp add: len)
    then have "card S \<noteq> 0" by simp
    then have "S \<noteq> {}" by (metis card.empty)
    then obtain i where i: "i \<in> S" by blast
    have "card (S - {i}) \<noteq> 0" using c i fin by simp
    then have "S - {i} \<noteq> {}" by (metis card.empty)
    then obtain j where j: "j \<in> S" "j \<noteq> i" by blast
    from i j show ?R unfolding mem by blast
  next
    assume ?R
    then obtain i j where ij: "i \<in> S" "j \<in> S" "i \<noteq> j" unfolding mem by blast
    then have "card {i, j} \<le> card S" using fin by (intro card_mono) auto
    with ij show ?L by (simp add: len)
  qed
qed

section \<open>One more bit of the mask\<close>

lemma drop_bit_nat_step:
  "drop_bit b (m::nat) = 2 * drop_bit (Suc b) m + of_bool (bit m b)"
proof -
  have "drop_bit (Suc b) m = drop_bit b m div 2"
    by (simp add: drop_bit_Suc drop_bit_half)
  moreover have "bit m b \<longleftrightarrow> odd (drop_bit b m)"
    by (simp add: bit_iff_odd_drop_bit)
  ultimately show ?thesis by (cases "odd (drop_bit b m)") auto
qed

lemma drop_bit_unat_step:
  "drop_bit b (unat (w::int32)) = 2 * drop_bit (Suc b) (unat w) + of_bool (bit w b)"
  by (simp add: drop_bit_nat_step [of b "unat w"] bit_unsigned_iff)

lemma drop_bit_or_push_bit:
  "drop_bit (Suc b) (r OR push_bit b 1) = drop_bit (Suc b) (r :: int32)"
  by (rule bit_eqI) (auto simp: bit_simps)

lemma bit_or_exp:
  "bit (r OR 2 ^ b :: int32) n \<longleftrightarrow> bit r n \<or> (n = b \<and> b < 32)"
  by (auto simp: bit_simps)

lemma bit_or_push_bit_one:
  "bit (r OR push_bit b 1 :: int32) n \<longleftrightarrow> bit r n \<or> (n = b \<and> b < 32)"
  by (simp add: bit_or_exp)

lemma step_dominates:
  fixes v r r' :: int32
  assumes hi: "drop_bit (Suc b) (unat v) \<le> drop_bit (Suc b) (unat r)"
    and r': "r' = r \<or> r' = r OR push_bit b 1"
    and commit: "v AND (r OR push_bit b 1) = r OR push_bit b 1 \<Longrightarrow> r' = r OR push_bit b 1"
    and low: "\<And>n. bit r n \<Longrightarrow> Suc b \<le> n"
    and b: "b < 32"
  shows "drop_bit b (unat v) \<le> drop_bit b (unat r')"
proof -
  have "drop_bit (Suc b) r' = drop_bit (Suc b) r"
    using r' by (metis drop_bit_or_push_bit)
  then have same: "drop_bit (Suc b) (unat r') = drop_bit (Suc b) (unat r)"
    by (simp only: unat_drop_bit_eq [symmetric])
  show ?thesis
  proof (cases "drop_bit (Suc b) (unat v) < drop_bit (Suc b) (unat r)")
    case True
    then show ?thesis
      using same by (simp add: drop_bit_unat_step [of b v] drop_bit_unat_step [of b r'])
  next
    case False
    with hi have eq: "drop_bit (Suc b) (unat v) = drop_bit (Suc b) (unat r)" by simp
    show ?thesis
    proof (cases "bit v b")
      case False
      then show ?thesis
        using same eq by (simp add: drop_bit_unat_step [of b v] drop_bit_unat_step [of b r'])
    next
      case True
      from eq have "unat (drop_bit (Suc b) v) = unat (drop_bit (Suc b) r)"
        by (simp only: unat_drop_bit_eq)
      then have weq: "drop_bit (Suc b) v = drop_bit (Suc b) r"
        by (simp only: word_unat_eq_iff)
      have "v AND (r OR push_bit b 1) = r OR push_bit b 1"
      proof (rule bit_eqI)
        fix n
        show "bit (v AND (r OR push_bit b 1)) n \<longleftrightarrow> bit (r OR push_bit b 1) n"
        proof (cases "bit r n")
          case rn: True
          then have "Suc b \<le> n" by (rule low)
          then obtain m where n: "n = Suc b + m" using le_Suc_ex by blast
          have "bit v n = bit (drop_bit (Suc b) v) m"
            by (simp add: bit_drop_bit_eq n add.commute)
          also have "\<dots> = bit r n"
            by (simp add: weq bit_drop_bit_eq n add.commute)
          finally show ?thesis using rn by (simp add: bit_and_iff bit_or_iff)
        next
          case False
          then show ?thesis using True by (auto simp: bit_simps)
        qed
      qed
      then have "r' = r OR push_bit b 1" by (rule commit)
      then have "bit r' b" using b by (simp add: bit_or_exp)
      then show ?thesis
        using same eq by (simp add: drop_bit_unat_step [of b v] drop_bit_unat_step [of b r'])
    qed
  qed
qed

section \<open>Unfolding the outer loop\<close>

lemma bitLoop_neg: "b < 0 \<Longrightarrow> bitLoop arr b result = result"
  by (simp add: bitLoop.simps)

lemma bitLoop_nonneg:
  "0 \<le> b \<Longrightarrow> bitLoop arr b result = bitLoop arr (b - 1) (bitStep arr (nat b) result)"
  by (subst bitLoop.simps) simp

section \<open>The commit test\<close>

lemma bitStep_cases: "bitStep arr b r = r \<or> bitStep arr b r = r OR push_bit b 1"
  by (simp add: bitStep_def Let_def)

lemma bitStep_commit:
  assumes "length arr < 2 ^ 31"
  shows "bitStep arr b r =
    (if 2 \<le> length (filter (\<lambda>num. num AND (r OR push_bit b 1) = r OR push_bit b 1) arr)
     then r OR push_bit b 1 else r)"
proof -
  let ?n = "length (filter (\<lambda>num. num AND (r OR push_bit b 1) = r OR push_bit b 1) arr)"
  have "?n < 2 ^ 31" by (rule le_less_trans [OF length_filter_le assms])
  then have "(2 \<le>s (of_nat ?n :: int32)) \<longleftrightarrow> 2 \<le> ?n" by (rule two_sle_of_nat)
  then show ?thesis
    unfolding bitStep_def Let_def countSupersets_of_nat by simp
qed

lemma bitStep_changed:
  assumes "bitStep arr b r \<noteq> r"
  shows "2 \<le> length (filter (\<lambda>num. num AND (r OR push_bit b 1) = r OR push_bit b 1) arr)"
    and "bitStep arr b r = r OR push_bit b 1"
proof -
  let ?n = "length (filter (\<lambda>num. num AND (r OR push_bit b 1) = r OR push_bit b 1) arr)"
  from assms have "2 \<le>s (of_nat ?n :: int32)"
    unfolding bitStep_def Let_def countSupersets_of_nat by (simp split: if_splits)
  then show "2 \<le> ?n" by (rule two_sle_of_nat_imp)
  from assms bitStep_cases [of arr b r] show "bitStep arr b r = r OR push_bit b 1" by blast
qed

section \<open>The accumulator along the run of the outer loop\<close>

text \<open>
  After \<open>k\<close> iterations the loop counter is \<open>31 - k\<close> and the accumulator is
  \<open>resultAfter arr k\<close>: running the loop on from there gives the value of the call.
\<close>

lemma bitLoop_resultAfter:
  "k \<le> 32 \<Longrightarrow> bitLoop arr (31 - int k) (resultAfter arr k) = maxAndPair arr"
proof (induction k)
  case 0
  show ?case by (simp add: maxAndPair_def)
next
  case (Suc k)
  then have k: "k < 32" by simp
  then have "bitLoop arr (31 - int k) (resultAfter arr k)
      = bitLoop arr (31 - int k - 1) (bitStep arr (nat (31 - int k)) (resultAfter arr k))"
    by (intro bitLoop_nonneg) simp
  moreover have "nat (31 - int k) = 31 - k" using k by simp
  moreover have "31 - int k - 1 = 31 - int (Suc k)" by simp
  ultimately show ?case using Suc by simp
qed

lemma maxAndPair_resultAfter: "maxAndPair arr = resultAfter arr 32"
  using bitLoop_resultAfter [of 32 arr] by (simp add: bitLoop_neg)

section \<open>The invariants of the greedy construction\<close>

text \<open>
  After \<open>k\<close> iterations the accumulator has no bit below position \<open>32 - k\<close>, at least
  two elements contain all its bits, and above position \<open>32 - k\<close> no \<open>arr[i] & arr[j]\<close>
  with \<open>i \<noteq> j\<close> is larger than it.
\<close>

lemma resultAfter_low_bits:
  "k \<le> 32 \<Longrightarrow> bit (resultAfter arr k) n \<Longrightarrow> 32 - k \<le> n"
proof (induction k arbitrary: n)
  case 0
  then show ?case by simp
next
  case (Suc k)
  show ?case
  proof (cases "bitStep arr (31 - k) (resultAfter arr k) = resultAfter arr k")
    case True
    with Suc have "32 - k \<le> n" by simp
    then show ?thesis by simp
  next
    case False
    then have "resultAfter arr (Suc k) = resultAfter arr k OR push_bit (31 - k) 1"
      using bitStep_changed(2) by simp
    with Suc.prems have "bit (resultAfter arr k) n \<or> n = 31 - k"
      by (auto simp: bit_or_exp)
    then show ?thesis using Suc.IH [of n] Suc.prems(1) by auto
  qed
qed

lemma resultAfter_two_supersets:
  assumes "2 \<le> length arr"
  shows "2 \<le> length (filter (\<lambda>num. num AND resultAfter arr k = resultAfter arr k) arr)"
proof (induction k)
  case 0
  from assms show ?case by simp
next
  case (Suc k)
  show ?case
  proof (cases "bitStep arr (31 - k) (resultAfter arr k) = resultAfter arr k")
    case True
    with Suc show ?thesis by simp
  next
    case False
    from bitStep_changed [OF False] show ?thesis by simp
  qed
qed

lemma and_pair_superset:
  fixes x y t :: int32
  shows "(x AND y) AND t = t \<longleftrightarrow> x AND t = t \<and> y AND t = t"
  by (auto simp: bit_eq_iff bit_and_iff)

lemma resultAfter_dominates:
  assumes len: "length arr < 2 ^ 31"
    and ij: "i < length arr" "j < length arr" "i \<noteq> j"
  shows "k \<le> 32 \<Longrightarrow>
    drop_bit (32 - k) (unat (arr ! i AND arr ! j)) \<le> drop_bit (32 - k) (unat (resultAfter arr k))"
proof (induction k)
  case 0
  have "unat (arr ! i AND arr ! j) < 2 ^ 32"
    using unsigned_less [of "arr ! i AND arr ! j"] by simp
  then show ?case by (simp add: drop_bit_eq_div)
next
  case (Suc k)
  then have k: "k < 32" by simp
  let ?b = "31 - k"
  let ?r = "resultAfter arr k"
  let ?v = "arr ! i AND arr ! j"
  from k have Sb: "Suc ?b = 32 - k" and b: "?b = 32 - Suc k" by simp_all
  have "drop_bit ?b (unat ?v) \<le> drop_bit ?b (unat (bitStep arr ?b ?r))"
  proof (rule step_dominates)
    show "drop_bit (Suc ?b) (unat ?v) \<le> drop_bit (Suc ?b) (unat ?r)"
      unfolding Sb using Suc.IH k by simp
    show "bitStep arr ?b ?r = ?r \<or> bitStep arr ?b ?r = ?r OR push_bit ?b 1"
      by (rule bitStep_cases)
    show "bitStep arr ?b ?r = ?r OR push_bit ?b 1"
      if "?v AND (?r OR push_bit ?b 1) = ?r OR push_bit ?b 1"
    proof -
      from that have "arr ! i AND (?r OR push_bit ?b 1) = ?r OR push_bit ?b 1"
        and "arr ! j AND (?r OR push_bit ?b 1) = ?r OR push_bit ?b 1"
        by (simp_all only: and_pair_superset)
      with ij have "2 \<le> length (filter (\<lambda>num. num AND (?r OR push_bit ?b 1) = ?r OR push_bit ?b 1) arr)"
        unfolding filter_two_iff by blast
      then show ?thesis by (simp only: bitStep_commit [OF len] if_True)
    qed
    show "Suc ?b \<le> n" if "bit ?r n" for n
      unfolding Sb using resultAfter_low_bits [OF _ that] k by simp
    show "?b < 32" by simp
  qed
  then show ?case unfolding b by simp
qed

lemma maxAndPair_greatest:
  assumes "length arr < 2 ^ 31" "i < length arr" "j < length arr" "i \<noteq> j"
  shows "arr ! i AND arr ! j \<le> maxAndPair arr"
  using resultAfter_dominates [OF assms, of 32]
  by (simp add: maxAndPair_resultAfter word_le_nat_alt)

lemma maxAndPair_attained:
  assumes "2 \<le> length arr" "length arr < 2 ^ 31"
  shows "\<exists>i j. i < length arr \<and> j < length arr \<and> i \<noteq> j \<and> maxAndPair arr = arr ! i AND arr ! j"
proof -
  let ?r = "maxAndPair arr"
  from resultAfter_two_supersets [OF assms(1), of 32]
  obtain i j where ij: "i < length arr" "j < length arr" "i \<noteq> j"
    and sup: "arr ! i AND ?r = ?r" "arr ! j AND ?r = ?r"
    unfolding filter_two_iff maxAndPair_resultAfter by blast
  from sup have "(arr ! i AND arr ! j) AND ?r = ?r" by (simp only: and_pair_superset)
  then have "?r \<le> arr ! i AND arr ! j" by (metis word_and_le2)
  moreover have "arr ! i AND arr ! j \<le> ?r" using assms(2) ij by (rule maxAndPair_greatest)
  ultimately have "?r = arr ! i AND arr ! j" by simp
  with ij show ?thesis by blast
qed

section \<open>Reading a word as an \<open>int\<close>\<close>

lemma uint_int32_less: "uint (w :: int32) < 4294967296"
  using uint_bounded [of w] by simp

lemma sint_eq_uint_minus:
  "sint (w :: int32) = uint w - 2 ^ 32 * of_bool (bit w 31)"
proof -
  have "take_bit 32 (uint w) = uint w"
    by (rule take_bit_int_eq_self) (simp_all add: uint_int32_less)
  then show ?thesis
    by (simp add: sint_uint signed_take_bit_eq_take_bit_minus bit_unsigned_iff)
qed

lemma nonneg_iff_bit: "0 \<le>s (x :: int32) \<longleftrightarrow> \<not> bit x 31"
  using uint_int32_less [of x] by (simp add: word_sle_eq sint_eq_uint_minus)

lemma neg_iff_bit: "(x :: int32) <s 0 \<longleftrightarrow> bit x 31"
  using nonneg_iff_bit [of x] by (simp add: signed.not_le [symmetric])

lemma sint_le_same_sign:
  fixes u v :: int32
  assumes "bit u 31 = bit v 31"
  shows "sint u \<le> sint v \<longleftrightarrow> u \<le> v"
  using assms by (simp add: sint_eq_uint_minus word_le_def)

section \<open>The routine against the exhaustive scan\<close>


subsection \<open>A vector that overflows the counter\<close>









section \<open>Reordering the vector\<close>

lemma countSupersets_mset:
  assumes "mset arr = mset arr'"
  shows "countSupersets t arr = countSupersets t arr'"
proof -
  have "length (filter P arr) = length (filter P arr')" for P :: "int32 \<Rightarrow> bool"
  proof -
    have "mset (filter P arr) = mset (filter P arr')"
      using assms by (simp only: mset_filter)
    then show ?thesis by (rule mset_eq_length)
  qed
  then show ?thesis by (simp only: countSupersets_of_nat)
qed

lemma bitStep_mset:
  "mset arr = mset arr' \<Longrightarrow> bitStep arr b r = bitStep arr' b r"
  unfolding bitStep_def by (simp only: countSupersets_mset [of arr arr'])

lemma resultAfter_mset:
  "mset arr = mset arr' \<Longrightarrow> resultAfter arr k = resultAfter arr' k"
  by (induction k) (simp_all add: bitStep_mset [of arr arr'])

text \<open>
  Claim C6. The routine returns the same value on every reordering of its input: the
  value depends on the multiset of the elements only.
\<close>

theorem maxAndPair_permutation:
  "mset arr = mset arr' \<Longrightarrow> maxAndPair arr = maxAndPair arr'"
  by (simp only: maxAndPair_resultAfter resultAfter_mset [of arr arr'])

theorem maxAndPair_permutation_witness:
  "mset [4, 8, 12, 16 :: int32] = mset [16, 4, 12, 8]
   \<and> maxAndPair [4, 8, 12, 16] = maxAndPair [16, 4, 12, 8]"
proof -
  have m: "mset [4, 8, 12, 16 :: int32] = mset [16, 4, 12, 8]" by simp
  from m maxAndPair_permutation [OF m] show ?thesis by blast
qed

section \<open>A value paired with itself\<close>

text \<open>
  Claim C7. On the two-element vector \<open>[x, x]\<close> the routine returns \<open>x\<close>, for every
  value \<open>x\<close> of the element type and so for every non-negative one.
\<close>

theorem maxAndPair_same_twice: "maxAndPair [x, x] = x"
proof -
  have "\<exists>i j. i < length [x, x] \<and> j < length [x, x] \<and> i \<noteq> j
      \<and> maxAndPair [x, x] = [x, x] ! i AND [x, x] ! j"
    by (rule maxAndPair_attained) simp_all
  then obtain i j where ij: "i < length [x, x]" "j < length [x, x]"
    and r: "maxAndPair [x, x] = [x, x] ! i AND [x, x] ! j"
    by blast
  have "[x, x] ! n = x" if "n < length [x, x]" for n
    using that by (cases n) simp_all
  with ij r show ?thesis by simp
qed

section \<open>The sign of the returned value\<close>

lemma resultAfter_sign_clear:
  assumes nonneg: "\<forall>x \<in> set arr. 0 \<le>s x"
  shows "\<not> bit (resultAfter arr k) 31"
proof (induction k)
  case 0
  show ?case by simp
next
  case (Suc k)
  let ?r = "resultAfter arr k"
  let ?t = "?r OR push_bit (31 - k) 1"
  show ?case
  proof (cases "bitStep arr (31 - k) ?r = ?r")
    case True
    with Suc show ?thesis by simp
  next
    case False
    from bitStep_changed [OF False]
    have two: "2 \<le> length (filter (\<lambda>num. num AND ?t = ?t) arr)"
      and new: "resultAfter arr (Suc k) = ?t" by simp_all
    from two have "filter (\<lambda>num. num AND ?t = ?t) arr \<noteq> []" by auto
    then obtain x where x: "x \<in> set arr" "x AND ?t = ?t"
      by (auto simp: filter_empty_conv)
    from x(1) nonneg have "\<not> bit x 31" by (simp add: nonneg_iff_bit)
    then have "\<not> bit (x AND ?t) 31" by (simp add: bit_and_iff)
    with x(2) new show ?thesis by simp
  qed
qed

text \<open>
  Claim C9. On non-negative elements the returned \<open>int\<close> lies between 0 and
  \<open>2 ^ 32 - 1\<close>: the iteration for bit 31 forms the mask \<open>1 << 31\<close>, which no
  non-negative element contains, and never commits it.
\<close>

theorem maxAndPair_range:
  assumes "\<forall>x \<in> set arr. 0 \<le>s x"
  shows "0 \<le> sint (maxAndPair arr) \<and> sint (maxAndPair arr) \<le> 2 ^ 32 - 1"
proof -
  have "\<not> bit (maxAndPair arr) 31"
    unfolding maxAndPair_resultAfter using assms by (rule resultAfter_sign_clear)
  then show ?thesis
    using uint_int32_less [of "maxAndPair arr"] by (simp add: sint_eq_uint_minus)
qed

theorem maxAndPair_range_witness:
  "0 \<le> sint (maxAndPair [2147483647, 2147483647, 5])
   \<and> sint (maxAndPair [2147483647, 2147483647, 5]) \<le> 2 ^ 32 - 1
   \<and> maxAndPair [2147483647, 2147483647, 5] = 2147483647"
proof -
  have h: "\<forall>x \<in> set [2147483647, 2147483647, 5 :: int32]. 0 \<le>s x"
    by (simp add: word_sle_eq)
  have v: "maxAndPair [2147483647, 2147483647, 5] = 2147483647" by code_simp
  from v maxAndPair_range [OF h] show ?thesis by blast
qed

section \<open>Vectors with no pair\<close>

lemma short_no_commit:
  assumes "length arr < 2"
  shows "\<not> 2 \<le>s countSupersets t arr"
proof -
  have "length (filter (\<lambda>num. num AND t = t) arr) < 2"
    by (rule le_less_trans [OF length_filter_le assms])
  then have "\<not> 2 \<le> length (filter (\<lambda>num. num AND t = t) arr)" by simp
  then show ?thesis unfolding countSupersets_of_nat using two_sle_of_nat_imp by blast
qed

lemma short_bitStep: "length arr < 2 \<Longrightarrow> bitStep arr b r = r"
  by (simp add: bitStep_def Let_def short_no_commit)

lemma short_resultAfter: "length arr < 2 \<Longrightarrow> resultAfter arr k = 0"
  by (induction k) (simp_all add: short_bitStep)

text \<open>
  Claim C10. On the empty vector and on every one-element vector the commit test
  \<open>count >= 2\<close> fails for every mask, the accumulator keeps its initial value 0 after
  every iteration, and the routine returns 0.
\<close>

theorem maxAndPair_short:
  assumes "length arr < 2"
  shows "\<not> 2 \<le>s countSupersets t arr \<and> resultAfter arr k = 0 \<and> maxAndPair arr = 0"
  using assms by (simp add: short_no_commit short_resultAfter maxAndPair_resultAfter)

theorem maxAndPair_short_witness:
  "length [5 :: int32] < 2 \<and> \<not> 2 \<le>s countSupersets 4 [5] \<and> resultAfter [5] 3 = 0
   \<and> maxAndPair [5] = 0 \<and> maxAndPair [] = 0"
proof -
  have a: "length [5 :: int32] < 2" and b: "length ([] :: int32 list) < 2" by simp_all
  from maxAndPair_short [OF a, of 4 3] maxAndPair_short [OF b, of 0 0] a show ?thesis by blast
qed

section \<open>The frame of the call\<close>

lemma forEach_fold:
  "forEach i s = s\<lparr>count_var :=
     fold (\<lambda>num count. if (num AND tempResult_var s) = tempResult_var s then count + 1 else count)
       (drop i (arr_var s)) (count_var s)\<rparr>"
proof (induction i s rule: forEach.induct)
  case (1 i s)
  show ?case
  proof (cases "i < length (arr_var s)")
    case True
    then have d: "drop i (arr_var s) = arr_var s ! i # drop (Suc i) (arr_var s)"
      by (simp add: Cons_nth_drop_Suc)
    have "forEach i s = forEach (Suc i) (countIf (arr_var s ! i) s)"
      using True by (subst forEach.simps) simp
    also have "\<dots> = s\<lparr>count_var :=
       fold (\<lambda>num count. if (num AND tempResult_var s) = tempResult_var s then count + 1 else count)
         (drop i (arr_var s)) (count_var s)\<rparr>"
      unfolding "1.IH" [OF True] d by (simp add: countIf_def)
    finally show ?thesis .
  next
    case False
    then show ?thesis by (subst forEach.simps) simp
  qed
qed

lemma outerBody_bitStep:
  "outerBody b s = s\<lparr>result_var := bitStep (arr_var s) b (result_var s),
     count_var := countSupersets (result_var s OR push_bit b 1) (arr_var s),
     tempResult_var := result_var s OR push_bit b 1\<rparr>"
  by (simp add: outerBody_def forEach_fold bitStep_def countSupersets_def Let_def)

lemma outerLoop_bitLoop:
  "arr_var (outerLoop b s) = arr_var s
   \<and> result_var (outerLoop b s) = bitLoop (arr_var s) b (result_var s)"
proof (induction b s rule: outerLoop.induct)
  case (1 b s)
  show ?case
  proof (cases "0 \<le> b")
    case True
    have "outerLoop b s = outerLoop (b - 1) (outerBody (nat b) s)"
      using True by (subst outerLoop.simps) simp
    then show ?thesis
      using "1.IH" [OF True] True by (simp add: outerBody_bitStep bitLoop_nonneg)
  next
    case False
    then have "outerLoop b s = s" by (subst outerLoop.simps) simp
    then show ?thesis using False by (simp add: bitLoop_neg)
  qed
qed

lemma maxAndPair_call_eq: "maxAndPair_call v = (maxAndPair v, v)"
  by (simp add: maxAndPair_call_def Let_def outerLoop_bitLoop maxAndPair_def)

text \<open>
  Claim C8. A call has no side effect: the caller's vector is the same after the call
  as before it, and the returned value is a function of that vector alone, with no
  state kept between calls.
\<close>

theorem maxAndPair_call_frame:
  "snd (maxAndPair_call v) = v \<and> fst (maxAndPair_call v) = maxAndPair v"
  by (simp add: maxAndPair_call_eq)

text \<open>
  Claim C2 says that fewer than two elements give an \<open>InsufficientElements\<close> error
  and never a numeric default. The routine has no error to give: on \<open>{5}\<close> and on the
  empty vector it returns the \<open>int\<close> 0.
\<close>

theorem maxAndPair_default_counterexample:
  "sint (maxAndPair [5]) = 0 \<and> sint (maxAndPair []) = 0"
  by code_simp

text \<open>
  Claim C2, amended. On fewer than two elements the call signals no error: it returns
  normally, with the numeric value 0, and leaves the vector as it was.
\<close>

theorem maxAndPair_call_short:
  assumes "length v < 2"
  shows "maxAndPair_call v = (0, v)"
  using assms by (simp add: maxAndPair_call_eq maxAndPair_resultAfter short_resultAfter)

theorem maxAndPair_call_short_witness:
  "maxAndPair_call [5] = (0, [5]) \<and> maxAndPair_call [] = (0, [])"
proof -
  have a: "length [5 :: int32] < 2" and b: "length ([] :: int32 list) < 2" by simp_all
  from maxAndPair_call_short [OF a] maxAndPair_call_short [OF b] show ?thesis by blast
qed

section \<open>The accumulator from one iteration to the next\<close>

lemma resultAfter_bit_fresh:
  assumes "k < 32"
  shows "\<not> bit (resultAfter arr k) (31 - k)"
proof
  assume "bit (resultAfter arr k) (31 - k)"
  then have "32 - k \<le> 31 - k" using assms by (intro resultAfter_low_bits) simp_all
  with assms show False by simp
qed





text \<open>
  Claim C4 says that \<open>result\<close> never decreases, for every input. On \<open>{-1, -1}\<close> the
  first iteration commits the sign bit, and the \<open>int\<close> \<open>result\<close> drops from 0 to
  \<open>- 2 ^ 31\<close>.
\<close>

theorem result_signed_drop_counterexample:
  "sint (resultAfter [-1, -1] 1) < sint (resultAfter [-1, -1] 0)
   \<and> resultAfter [-1, -1] 0 = 0 \<and> sint (resultAfter [-1, -1] 1) = - (2 ^ 31)"
  by code_simp

lemma superset_single_bit:
  assumes b: "b < 32"
  shows "(x AND 2 ^ b = (2 ^ b :: int32)) \<longleftrightarrow> bit x b"
proof
  assume "x AND 2 ^ b = 2 ^ b"
  then have "bit (x AND 2 ^ b) b \<longleftrightarrow> bit (2 ^ b :: int32) b" by simp
  then show "bit x b" using b by (simp add: bit_simps)
next
  assume x: "bit x b"
  show "x AND 2 ^ b = 2 ^ b"
    by (rule bit_eqI) (use x in \<open>auto simp: bit_simps\<close>)
qed

text \<open>
  Claim C4, amended. For every input, each iteration either leaves \<open>result\<close> unchanged
  or sets exactly one more bit, the bit of the current position, which was clear
  before. Read as an unsigned 32-bit value \<open>result\<close> never decreases. Read as an
  \<open>int\<close> it never decreases in the iterations for bits 30 down to 0, nor in the
  iteration for bit 31 when fewer than two elements are negative.
\<close>

theorem resultAfter_monotone:
  assumes k: "k < 32"
  shows "(resultAfter arr (Suc k) = resultAfter arr k
          \<or> (resultAfter arr (Suc k) = (resultAfter arr k OR push_bit (31 - k) 1)
              \<and> \<not> bit (resultAfter arr k) (31 - k)
              \<and> bit (resultAfter arr (Suc k)) (31 - k)))
       \<and> resultAfter arr k \<le> resultAfter arr (Suc k)
       \<and> (0 < k \<longrightarrow> sint (resultAfter arr k) \<le> sint (resultAfter arr (Suc k)))
       \<and> (length (filter (\<lambda>num. num <s 0) arr) < 2
            \<longrightarrow> sint (resultAfter arr k) \<le> sint (resultAfter arr (Suc k)))"
proof -
  let ?r = "resultAfter arr k"
  let ?t = "?r OR push_bit (31 - k) 1"
  let ?r' = "resultAfter arr (Suc k)"
  have cases: "?r' = ?r \<or> ?r' = ?t" using bitStep_cases [of arr "31 - k" ?r] by simp
  have fresh: "\<not> bit ?r (31 - k)" using k by (rule resultAfter_bit_fresh)
  have "31 - k < 32" by arith
  then have tb: "bit ?t (31 - k)" by (simp only: bit_or_push_bit_one) simp
  have le: "?r \<le> ?r'" using cases le_word_or2 [of ?r "push_bit (31 - k) 1"] by auto
  have s1: "sint ?r \<le> sint ?r'" if "0 < k"
  proof -
    have "bit ?t 31 = bit ?r 31" using that k by (auto simp: bit_or_exp)
    with cases have "bit ?r 31 = bit ?r' 31" by auto
    with le show ?thesis by (simp only: sint_le_same_sign)
  qed
  have s2: "sint ?r \<le> sint ?r'" if few: "length (filter (\<lambda>num. num <s 0) arr) < 2"
  proof (cases "0 < k")
    case True
    then show ?thesis by (rule s1)
  next
    case False
    then have k0: "k = 0" by simp
    have "?r' = ?r"
    proof (rule ccontr)
      assume "?r' \<noteq> ?r"
      then have "bitStep arr (31 - k) ?r \<noteq> ?r" by simp
      from bitStep_changed(1) [OF this]
      have two: "2 \<le> length (filter (\<lambda>num. num AND ?t = ?t) arr)" .
      have neg: "(num AND ?t = ?t) \<longleftrightarrow> num <s 0" for num
      proof -
        have "?t = 2 ^ 31" unfolding k0 by simp
        moreover have "(num AND 2 ^ 31 = (2 ^ 31 :: int32)) \<longleftrightarrow> bit num 31"
          by (rule superset_single_bit) simp
        ultimately show ?thesis by (simp only: neg_iff_bit)
      qed
      from two have "2 \<le> length (filter (\<lambda>num. num <s 0) arr)" by (simp only: neg)
      with few show False by simp
    qed
    then show ?thesis by simp
  qed
  from cases fresh tb le s1 s2 show ?thesis by metis
qed

theorem resultAfter_monotone_witness:
  "resultAfter [4, 8, 12, 16] 28 \<le> resultAfter [4, 8, 12, 16] (Suc 28)
   \<and> sint (resultAfter [4, 8, 12, 16] 28) \<le> sint (resultAfter [4, 8, 12, 16] (Suc 28))
   \<and> sint (resultAfter [4, 8, 12, 16] 0) \<le> sint (resultAfter [4, 8, 12, 16] (Suc 0))
   \<and> resultAfter [4, 8, 12, 16] 28 = 0 \<and> resultAfter [4, 8, 12, 16] (Suc 28) = 8"
proof -
  have k: "(28 :: nat) < 32" "(0 :: nat) < 28" "(0 :: nat) < 32" by simp_all
  have few: "length (filter (\<lambda>num. num <s 0) [4, 8, 12, 16 :: int32]) < 2"
    by (simp add: word_sless_alt)
  have v: "resultAfter [4, 8, 12, 16] 28 = 0" "resultAfter [4, 8, 12, 16] (Suc 28) = 8"
    by code_simp+
  from resultAfter_monotone [OF k(1), of "[4, 8, 12, 16]"]
    resultAfter_monotone [OF k(3), of "[4, 8, 12, 16]"] k(2) few v
  show ?thesis by blast
qed

section \<open>The sample input of \<open>main\<close>\<close>

text \<open>
  Claim C3. On the vector \<open>{4, 8, 12, 16}\<close> of \<open>main\<close> the routine returns 8, the value
  of \<open>8 & 12\<close>; it does not return 12.
\<close>

theorem maxAndPair_sample:
  "maxAndPair [4, 8, 12, 16] = 8 \<and> (8 :: int32) AND 12 = 8 \<and> sint (maxAndPair [4, 8, 12, 16]) = 8
   \<and> maxAndPair [4, 8, 12, 16] \<noteq> 12"
  by code_simp

end
